theory Spec2Isabelle
  imports Complex_Main "HOL-Library.Sublist" "HOL-Library.Multiset"
begin

section \<open>Text and character classes\<close>

text \<open>
  A Python \<open>str\<close> is the list of its code points. The character tests that \<open>re\<close> and the
  \<open>str\<close> methods take from the Unicode character database are fields of a record \<open>ucd\<close>
  that every function receives, so the theorems hold for whatever the database says:
  \<^item> \<open>uc_decimal\<close>: the decimal value of a code point of category Nd (what \<open>\d\<close> matches
    and what \<open>int\<close> and \<open>float\<close> read), \<open>None\<close> for every other code point;
  \<^item> \<open>uc_alpha\<close>: alphabetic, digit or numeric (with \<open>uc_decimal\<close> and the underscore this
    is \<open>\w\<close>);
  \<^item> \<open>uc_space\<close>: whitespace (\<open>\s\<close> and \<open>str.strip\<close>);
  \<^item> \<open>uc_tolower\<close>: the simple lower-case mapping that \<open>re.IGNORECASE\<close> compares with;
  \<^item> \<open>str_lower\<close>: the method \<open>str.lower\<close>.
\<close>

type_synonym ustr = "nat list"

record ucd =
  uc_decimal :: "nat \<Rightarrow> nat option"
  uc_alpha :: "nat \<Rightarrow> bool"
  uc_space :: "nat \<Rightarrow> bool"
  uc_tolower :: "nat \<Rightarrow> nat"
  str_lower :: "ustr \<Rightarrow> ustr"

definition asc :: "string \<Rightarrow> ustr" where
  "asc s = map of_char s"

text \<open>
  The database restricted to ASCII and the CJK unified ideographs, to run the functions on
  examples.
\<close>

definition basic_tolower :: "nat \<Rightarrow> nat" where
  "basic_tolower c = (if 65 \<le> c \<and> c \<le> 90 then c + 32 else c)"

definition basic_ucd :: ucd where
  "basic_ucd = \<lparr>
     uc_decimal = (\<lambda>c. if 48 \<le> c \<and> c \<le> 57 then Some (c - 48) else None),
     uc_alpha = (\<lambda>c. (65 \<le> c \<and> c \<le> 90) \<or> (97 \<le> c \<and> c \<le> 122) \<or> (19968 \<le> c \<and> c \<le> 40959)),
     uc_space = (\<lambda>c. (9 \<le> c \<and> c \<le> 13) \<or> (28 \<le> c \<and> c \<le> 32)),
     uc_tolower = basic_tolower,
     str_lower = map basic_tolower \<rparr>"

definition is_digit :: "ucd \<Rightarrow> nat \<Rightarrow> bool" where
  "is_digit U c = (uc_decimal U c \<noteq> None)"

definition is_word :: "ucd \<Rightarrow> nat \<Rightarrow> bool" where
  "is_word U c = (uc_alpha U c \<or> is_digit U c \<or> c = 95)"

text \<open>The literals of the source that are not ASCII.\<close>

definition telecom :: ustr where  \<comment> \<open>the provider marker, U+7535 U+4FE1\<close>
  "telecom = [30005, 20449]"

definition kw_address :: ustr where  \<comment> \<open>U+5730 U+5740\<close>
  "kw_address = [22320, 22336]"

definition kw_line :: ustr where  \<comment> \<open>U+7EBF U+8DEF\<close>
  "kw_line = [32447, 36335]"

definition kw_operator :: ustr where  \<comment> \<open>U+8FD0 U+8425 U+5546\<close>
  "kw_operator = [36816, 33829, 21830]"

definition kw_speed :: ustr where  \<comment> \<open>U+901F U+5EA6\<close>
  "kw_speed = [36895, 24230]"

definition unknown :: ustr where  \<comment> \<open>U+672A U+77E5\<close>
  "unknown = [26410, 30693]"

text \<open>\<open>sub in s\<close> on strings.\<close>

fun contains :: "ustr \<Rightarrow> ustr \<Rightarrow> bool" where
  "contains sub [] = (sub = [])"
| "contains sub (c # cs) = (prefix sub (c # cs) \<or> contains sub cs)"

text \<open>\<open>s.strip()\<close> and \<open>sep.join(xs)\<close>.\<close>

definition strip :: "ucd \<Rightarrow> ustr \<Rightarrow> ustr" where
  "strip U s = rev (dropWhile (uc_space U) (rev (dropWhile (uc_space U) s)))"

fun join :: "ustr \<Rightarrow> ustr list \<Rightarrow> ustr" where
  "join sep [] = []"
| "join sep [x] = x"
| "join sep (x # y # zs) = x @ sep @ join sep (y # zs)"

text \<open>\<open>s.split(".")\<close>: the pieces between the separators, at least one piece.\<close>

fun split_on :: "nat \<Rightarrow> ustr \<Rightarrow> ustr list" where
  "split_on d [] = [[]]"
| "split_on d (c # cs) =
     (if c = d then [] # split_on d cs
      else (case split_on d cs of p # ps \<Rightarrow> (c # p) # ps | [] \<Rightarrow> [[c]]))"

section \<open>Exceptions\<close>

datatype error = ValueError | IndexError

definition bind :: "error + 'a \<Rightarrow> ('a \<Rightarrow> error + 'b) \<Rightarrow> error + 'b" where
  "bind r f = (case r of Inl e \<Rightarrow> Inl e | Inr x \<Rightarrow> f x)"

fun for_each :: "('s \<Rightarrow> 'a \<Rightarrow> error + 's) \<Rightarrow> 's \<Rightarrow> 'a list \<Rightarrow> error + 's" where
  "for_each f st [] = Inr st"
| "for_each f st (x # xs) = bind (f st x) (\<lambda>st'. for_each f st' xs)"

definition py_index :: "'a list \<Rightarrow> nat \<Rightarrow> error + 'a" where
  "py_index xs i = (if i < length xs then Inr (xs ! i) else Inl IndexError)"

text \<open>
  The value of a string of decimal digits, most significant first. \<open>int\<close> and \<open>float\<close> are
  modelled on the strings the two patterns can capture (digits, and digits with one dot
  between them); every other string is a \<open>ValueError\<close> here.
\<close>

fun digits_value :: "ucd \<Rightarrow> nat \<Rightarrow> ustr \<Rightarrow> nat option" where
  "digits_value U acc [] = Some acc"
| "digits_value U acc (c # cs) =
     (case uc_decimal U c of None \<Rightarrow> None | Some v \<Rightarrow> digits_value U (10 * acc + v) cs)"

definition py_int :: "ucd \<Rightarrow> ustr \<Rightarrow> error + nat" where
  "py_int U s =
     (if s = [] then Inl ValueError
      else (case digits_value U 0 s of None \<Rightarrow> Inl ValueError | Some n \<Rightarrow> Inr n))"

definition py_float :: "ucd \<Rightarrow> ustr \<Rightarrow> error + rat" where
  "py_float U s =
     (case split_on 46 s of
        [i] \<Rightarrow> bind (py_int U i) (\<lambda>n. Inr (of_nat n))
      | [i, f] \<Rightarrow> bind (py_int U i) (\<lambda>n. bind (py_int U f)
                  (\<lambda>m. Inr (of_nat n + of_nat m / 10 ^ length f)))
      | _ \<Rightarrow> Inl ValueError)"

section \<open>The two patterns\<close>

text \<open>
  A pattern is matched at one position by backtracking. Each piece of a pattern is a function
  from the remaining text to the list of its possible matches, in the order in which the
  matcher tries them (a greedy repetition tries the longest first); the first element of the
  list for the whole pattern is the match that \<open>re\<close> reports at that position.
\<close>

fun digits_upto :: "ucd \<Rightarrow> nat \<Rightarrow> ustr \<Rightarrow> (ustr \<times> ustr) list" where  \<comment> \<open>\<open>\d{1,n}\<close>\<close>
  "digits_upto U n [] = []"
| "digits_upto U n (c # cs) =
     (if 0 < n \<and> is_digit U c
      then map (\<lambda>(d, r). (c # d, r)) (digits_upto U (n - 1) cs) @ [([c], cs)]
      else [])"

definition digits1 :: "ucd \<Rightarrow> ustr \<Rightarrow> (ustr \<times> ustr) list" where  \<comment> \<open>\<open>\d+\<close>\<close>
  "digits1 U s = digits_upto U (length s) s"

definition frac_opt :: "ucd \<Rightarrow> ustr \<Rightarrow> (ustr \<times> ustr) list" where  \<comment> \<open>\<open>(?:\.\d+)?\<close>\<close>
  "frac_opt U s =
     (case s of c # cs \<Rightarrow> if c = 46 then map (\<lambda>(d, r). (c # d, r)) (digits1 U cs) else []
      | [] \<Rightarrow> []) @ [([], s)]"

fun spaces :: "ucd \<Rightarrow> ustr \<Rightarrow> ustr list" where  \<comment> \<open>\<open>\s*\<close>: the texts that can remain\<close>
  "spaces U [] = [[]]"
| "spaces U (c # cs) = (if uc_space U c then spaces U cs @ [c # cs] else [c # cs])"

text \<open>
  A letter of the pattern under \<open>re.IGNORECASE\<close>: the text character matches when its simple
  lower case is the pattern's, and \<open>s\<close> is also matched by U+017F, whose lower case is itself.
  A character without case (the slash) is matched as it is.
\<close>

definition ci_char :: "ucd \<Rightarrow> nat \<Rightarrow> nat \<Rightarrow> bool" where
  "ci_char U p x =
     (if p = 47 then x = p
      else uc_tolower U x = p \<or> (p = 115 \<and> uc_tolower U x = 383))"

fun ci_literal :: "ucd \<Rightarrow> ustr \<Rightarrow> ustr \<Rightarrow> (ustr \<times> ustr) list" where
  "ci_literal U [] s = [([], s)]"
| "ci_literal U (p # ps) [] = []"
| "ci_literal U (p # ps) (x # xs) =
     (if ci_char U p x then map (\<lambda>(m, r). (x # m, r)) (ci_literal U ps xs) else [])"

definition unit_tokens :: "ustr list" where
  "unit_tokens = map asc [''gb/s'', ''mb/s'', ''kb/s'', ''gbps'', ''mbps'', ''kbps'']"

definition unit_here :: "ucd \<Rightarrow> ustr \<Rightarrow> (ustr \<times> ustr) list" where
  "unit_here U s = concat (map (\<lambda>t. ci_literal U t s) unit_tokens)"

text \<open>
  \<open>(\d+(?:\.\d+)?)\s*(GB/s|MB/s|KB/s|Gbps|Mbps|Kbps)\<close> at the start of \<open>s\<close>: the first group
  with the text after it, the second group behind optional whitespace, and the two groups of
  the whole pattern.
\<close>

definition number_here :: "ucd \<Rightarrow> ustr \<Rightarrow> (ustr \<times> ustr) list" where
  "number_here U s = [(d @ f, r2). (d, r1) \<leftarrow> digits1 U s, (f, r2) \<leftarrow> frac_opt U r1]"

definition spaced_unit_here :: "ucd \<Rightarrow> ustr \<Rightarrow> ustr list" where
  "spaced_unit_here U s = [u. r \<leftarrow> spaces U s, (u, r') \<leftarrow> unit_here U r]"

definition speed_here :: "ucd \<Rightarrow> ustr \<Rightarrow> (ustr \<times> ustr) list" where
  "speed_here U s = [(g1, g2). (g1, r) \<leftarrow> number_here U s, g2 \<leftarrow> spaced_unit_here U r]"

fun speed_search :: "ucd \<Rightarrow> ustr \<Rightarrow> (ustr \<times> ustr) option" where  \<comment> \<open>\<open>re.search\<close>\<close>
  "speed_search U [] = None"
| "speed_search U (c # cs) =
     (case speed_here U (c # cs) of m # _ \<Rightarrow> Some m | [] \<Rightarrow> speed_search U cs)"

text \<open>
  \<open>\b(?:\d{1,3}\.){3}\d{1,3}\b\<close>. \<open>prev\<close> is the character before the position, if any: \<open>\b\<close>
  holds where exactly one of the two neighbours is a word character.
\<close>

definition word_opt :: "ucd \<Rightarrow> nat option \<Rightarrow> bool" where
  "word_opt U x = (case x of None \<Rightarrow> False | Some c \<Rightarrow> is_word U c)"

definition head_opt :: "ustr \<Rightarrow> nat option" where
  "head_opt s = (case s of [] \<Rightarrow> None | c # _ \<Rightarrow> Some c)"

definition boundary :: "ucd \<Rightarrow> nat option \<Rightarrow> ustr \<Rightarrow> bool" where
  "boundary U prev s = (word_opt U prev \<noteq> word_opt U (head_opt s))"

definition octet_dot :: "ucd \<Rightarrow> ustr \<Rightarrow> (ustr \<times> ustr) list" where  \<comment> \<open>\<open>\d{1,3}\.\<close>\<close>
  "octet_dot U s =
     concat (map (\<lambda>(d, r). case r of c # cs \<Rightarrow> if c = 46 then [(d @ [c], cs)] else []
                              | [] \<Rightarrow> []) (digits_upto U 3 s))"

definition ip_here :: "ucd \<Rightarrow> nat option \<Rightarrow> ustr \<Rightarrow> (ustr \<times> ustr) list" where
  "ip_here U prev s =
     (if boundary U prev s
      then [(a @ b @ c @ d, r4). (a, r1) \<leftarrow> octet_dot U s, (b, r2) \<leftarrow> octet_dot U r1,
              (c, r3) \<leftarrow> octet_dot U r2, (d, r4) \<leftarrow> digits_upto U 3 r3,
              boundary U (Some (last d)) r4]
      else [])"

fun ip_search_from :: "ucd \<Rightarrow> nat option \<Rightarrow> ustr \<Rightarrow> ustr option" where
  "ip_search_from U prev [] = None"
| "ip_search_from U prev (c # cs) =
     (case ip_here U prev (c # cs) of (m, _) # _ \<Rightarrow> Some m
      | [] \<Rightarrow> ip_search_from U (Some c) cs)"

definition ip_search :: "ucd \<Rightarrow> ustr \<Rightarrow> ustr option" where  \<comment> \<open>\<open>ip_regex.search\<close>, group 0\<close>
  "ip_search U s = ip_search_from U None s"

text \<open>
  \<open>ip_regex.findall\<close>: the scan resumes at the end of a match. \<open>skip\<close> counts the characters
  of the last match that the scan still has to pass.
\<close>

fun ip_scan :: "ucd \<Rightarrow> nat option \<Rightarrow> nat \<Rightarrow> ustr \<Rightarrow> ustr list" where
  "ip_scan U prev skip [] = []"
| "ip_scan U prev skip (c # cs) =
     (if 0 < skip then ip_scan U (Some c) (skip - 1) cs
      else (case ip_here U prev (c # cs) of
              (m, _) # _ \<Rightarrow> m # ip_scan U (Some c) (length m - 1) cs
            | [] \<Rightarrow> ip_scan U (Some c) 0 cs))"

definition ip_findall :: "ucd \<Rightarrow> ustr \<Rightarrow> ustr list" where
  "ip_findall U s = ip_scan U None 0 s"

section \<open>The speed normaliser\<close>

definition parse_speed_to_mbps :: "ucd \<Rightarrow> ustr \<Rightarrow> error + (rat \<times> ustr) option" where
  "parse_speed_to_mbps U speed_text =
     (case speed_search U speed_text of
        None \<Rightarrow> Inr None
      | Some (g1, g2) \<Rightarrow>
          bind (py_float U g1) (\<lambda>v.
            let u = str_lower U g2; display = g1 @ [32] @ g2 in
            if u = asc ''gb/s'' then Inr (Some (v * 8 * 1000, display))
            else if u = asc ''mb/s'' then Inr (Some (v * 8, display))
            else if u = asc ''kb/s'' then Inr (Some (v * 8 / 1000, display))
            else if u = asc ''gbps'' then Inr (Some (v * 1000, display))
            else if u = asc ''mbps'' then Inr (Some (v, display))
            else if u = asc ''kbps'' then Inr (Some (v / 1000, display))
            else Inr None))"

section \<open>The parsed document\<close>

text \<open>
  The tree that the HTML parser hands to the program: an element has a tag name and children,
  a text node has its string. \<open>find_all\<close> walks the descendants in document order.
\<close>

datatype node = Text ustr | Elem string "node list"

fun descendants :: "node \<Rightarrow> node list" where
  "descendants (Text s) = []"
| "descendants (Elem t cs) = concat (map (\<lambda>c. c # descendants c) cs)"

definition named :: "string list \<Rightarrow> node \<Rightarrow> bool" where
  "named names n = (case n of Text _ \<Rightarrow> False | Elem t _ \<Rightarrow> t \<in> set names)"

definition find_all :: "string list \<Rightarrow> node \<Rightarrow> node list" where
  "find_all names n = filter (named names) (descendants n)"

definition find_first :: "string list \<Rightarrow> node \<Rightarrow> node option" where  \<comment> \<open>\<open>tag.find\<close>\<close>
  "find_first names n = (case find_all names n of [] \<Rightarrow> None | x # _ \<Rightarrow> Some x)"

definition strings :: "node \<Rightarrow> ustr list" where
  "strings n = concat (map (\<lambda>d. case d of Text s \<Rightarrow> [s] | Elem _ _ \<Rightarrow> []) (descendants n))"

definition get_text :: "ucd \<Rightarrow> ustr \<Rightarrow> node \<Rightarrow> ustr" where  \<comment> \<open>\<open>get_text(sep, strip=True)\<close>\<close>
  "get_text U sep n = join sep (filter (\<lambda>s. s \<noteq> []) (map (strip U) (strings n)))"

section \<open>The extraction\<close>

type_synonym ip_record = "ustr \<times> rat \<times> ustr"
type_synonym state = "ustr set \<times> ip_record list"

definition address :: "ip_record \<Rightarrow> ustr" where
  "address r = fst r"

definition mbps :: "ip_record \<Rightarrow> rat" where
  "mbps r = fst (snd r)"

definition display :: "ip_record \<Rightarrow> ustr" where
  "display r = snd (snd r)"

definition or_none :: "'a list \<Rightarrow> 'a list option" where  \<comment> \<open>\<open>xs or None\<close>\<close>
  "or_none xs = (if xs = [] then None else Some xs)"

definition header_cells_of :: "node \<Rightarrow> node list option" where
  "header_cells_of table =
     (let header_cells =
            (case find_first [''thead''] table of
               None \<Rightarrow> None
             | Some thead \<Rightarrow>
                 (case find_first [''tr''] thead of
                    None \<Rightarrow> None
                  | Some header_row \<Rightarrow> or_none (find_all [''th'', ''td''] header_row)))
      in if header_cells = None
         then (case find_first [''tr''] table of
                 None \<Rightarrow> None
               | Some first_tr \<Rightarrow>
                   if find_first [''th''] first_tr \<noteq> None
                   then or_none (find_all [''th'', ''td''] first_tr) else None)
         else header_cells)"

type_synonym columns = "nat option \<times> nat option \<times> nat option"

text \<open>The keyword rule of each role, on the text of a header cell.\<close>

definition is_ip_header :: "ucd \<Rightarrow> ustr \<Rightarrow> bool" where
  "is_ip_header U text = (contains (asc ''ip'') (str_lower U text) \<or> contains kw_address text)"

definition is_provider_header :: "ucd \<Rightarrow> ustr \<Rightarrow> bool" where
  "is_provider_header U text =
     (contains kw_line text \<or> contains kw_operator text \<or> contains (asc ''isp'') (str_lower U text))"

definition is_speed_header :: "ucd \<Rightarrow> ustr \<Rightarrow> bool" where
  "is_speed_header U text = (contains kw_speed text \<or> contains (asc ''speed'') (str_lower U text))"

definition header_step :: "ucd \<Rightarrow> columns \<Rightarrow> nat \<times> ustr \<Rightarrow> columns" where
  "header_step U cols it =
     (case cols of (ip_col, provider_col, speed_col) \<Rightarrow>
      (case it of (idx, text) \<Rightarrow>
        (if ip_col = None \<and> is_ip_header U text then Some idx else ip_col,
         if provider_col = None \<and> is_provider_header U text then Some idx else provider_col,
         if speed_col = None \<and> is_speed_header U text then Some idx else speed_col)))"

definition classify_headers :: "ucd \<Rightarrow> node list option \<Rightarrow> columns" where
  "classify_headers U header_cells =
     (case header_cells of
        None \<Rightarrow> (None, None, None)
      | Some cells \<Rightarrow>
          foldl (header_step U) (None, None, None)
            (enumerate 0 (map (get_text U []) cells)))"

definition body_rows_of :: "node \<Rightarrow> node list option \<Rightarrow> node list" where
  "body_rows_of table header_cells =
     (case find_first [''tbody''] table of
        Some tbody \<Rightarrow> find_all [''tr''] tbody
      | None \<Rightarrow>
          (let all_trs = find_all [''tr''] table
           in if header_cells \<noteq> None \<and> all_trs \<noteq> [] then tl all_trs else all_trs))"

fun all_octets_in_range :: "ucd \<Rightarrow> ustr list \<Rightarrow> error + bool" where
  "all_octets_in_range U [] = Inr True"
| "all_octets_in_range U (x # xs) =
     bind (py_int U x) (\<lambda>n. if 0 \<le> n \<and> n \<le> 255 then all_octets_in_range U xs else Inr False)"

definition add_record :: "state \<Rightarrow> ip_record \<Rightarrow> state" where
  "add_record st r =
     (case st of (seen_ips, results) \<Rightarrow>
        if address r \<notin> seen_ips then (insert (address r) seen_ips, results @ [r]) else st)"

definition too_narrow :: "node list \<Rightarrow> nat \<Rightarrow> nat \<Rightarrow> nat \<Rightarrow> bool" where
  "too_narrow tds ip_col provider_col speed_col =
     (tds = [] \<or> length tds \<le> max ip_col (max provider_col speed_col))"

definition column_row :: "ucd \<Rightarrow> nat \<Rightarrow> nat \<Rightarrow> nat \<Rightarrow> state \<Rightarrow> node \<Rightarrow> error + state" where
  "column_row U ip_col provider_col speed_col st tr =
     (let tds = find_all [''td'', ''th''] tr in
      if too_narrow tds ip_col provider_col speed_col then Inr st
      else bind (py_index tds provider_col) (\<lambda>provider_cell.
        if \<not> contains telecom (get_text U [] provider_cell) then Inr st
        else bind (py_index tds ip_col) (\<lambda>ip_cell.
          (case ip_search U (get_text U [32] ip_cell) of
             None \<Rightarrow> Inr st
           | Some ip \<Rightarrow>
               bind (all_octets_in_range U (split_on 46 ip)) (\<lambda>ok.
                 if \<not> ok then Inr st
                 else bind (py_index tds speed_col) (\<lambda>speed_cell.
                   let speed_text = get_text U [32] speed_cell in
                   bind (parse_speed_to_mbps U speed_text) (\<lambda>parsed.
                     Inr (add_record st
                       (case parsed of
                          Some (mbps_value, display_speed) \<Rightarrow> (ip, mbps_value, display_speed)
                        | None \<Rightarrow> (ip, 0, if speed_text \<noteq> [] then speed_text else unknown))))))))))"

definition fallback_match :: "ucd \<Rightarrow> rat \<Rightarrow> ustr \<Rightarrow> state \<Rightarrow> ustr \<Rightarrow> error + state" where
  "fallback_match U mbps_value display_speed st m =
     bind (all_octets_in_range U (split_on 46 m)) (\<lambda>ok.
       Inr (if ok then add_record st (m, mbps_value, display_speed) else st))"

definition fallback_row :: "ucd \<Rightarrow> state \<Rightarrow> node \<Rightarrow> error + state" where
  "fallback_row U st tr =
     (let cells = find_all [''td'', ''th''] tr in
      if cells = [] then Inr st
      else let row_text = join [32] (map (get_text U []) cells) in
        if \<not> contains telecom row_text then Inr st
        else bind (parse_speed_to_mbps U row_text) (\<lambda>speed_parsed.
          (case (case speed_parsed of Some p \<Rightarrow> p | None \<Rightarrow> (0, unknown)) of
             (mbps_value, display_speed) \<Rightarrow>
               for_each (fallback_match U mbps_value display_speed) st
                 (ip_findall U row_text))))"

text \<open>The strategy of a table, and the rows it runs over.\<close>

datatype mode = Column nat nat nat | Fallback

definition mode_of :: "columns \<Rightarrow> mode" where
  "mode_of cols =
     (case cols of
        (Some ip_col, Some provider_col, Some speed_col) \<Rightarrow> Column ip_col provider_col speed_col
      | _ \<Rightarrow> Fallback)"

definition row_step :: "ucd \<Rightarrow> mode \<Rightarrow> state \<Rightarrow> node \<Rightarrow> error + state" where
  "row_step U md st tr =
     (case md of
        Column ip_col provider_col speed_col \<Rightarrow> column_row U ip_col provider_col speed_col st tr
      | Fallback \<Rightarrow> fallback_row U st tr)"

definition table_step :: "ucd \<Rightarrow> state \<Rightarrow> node \<Rightarrow> error + state" where
  "table_step U st table =
     (let header_cells = header_cells_of table;
          cols = classify_headers U header_cells;
          body_rows = body_rows_of table header_cells
      in for_each (row_step U (mode_of cols)) st body_rows)"

text \<open>
  \<open>list.sort(key, reverse=True)\<close> reverses the list, sorts it stably in ascending order of the
  key and reverses the outcome.
\<close>

definition sort_reverse :: "('a \<Rightarrow> 'k::linorder) \<Rightarrow> 'a list \<Rightarrow> 'a list" where
  "sort_reverse key xs = rev (sort_key key (rev xs))"

definition collect :: "ucd \<Rightarrow> node \<Rightarrow> error + state" where  \<comment> \<open>the loop over the tables\<close>
  "collect U soup = for_each (table_step U) ({}, []) (find_all [''table''] soup)"

definition extract_telecom_ips :: "ucd \<Rightarrow> node \<Rightarrow> error + ip_record list" where
  "extract_telecom_ips U soup =
     bind (collect U soup) (\<lambda>st. Inr (sort_reverse mbps (snd st)))"

section \<open>Discovery order\<close>

text \<open>
  The rows in the order the program visits them, each with the strategy of its table; what a
  row yields when no address has been seen yet; and the sequence of all that the rows yield.
  In a fallback row every match carries the same speed, so a repeated address inside one row
  is the same record again.
\<close>

definition units :: "ucd \<Rightarrow> node \<Rightarrow> (mode \<times> node) list" where
  "units U soup =
     concat (map (\<lambda>table.
       let header_cells = header_cells_of table
       in map (\<lambda>tr. (mode_of (classify_headers U header_cells), tr))
            (body_rows_of table header_cells))
       (find_all [''table''] soup))"

definition discovered :: "ucd \<Rightarrow> mode \<times> node \<Rightarrow> ip_record list" where
  "discovered U u =
     (case row_step U (fst u) ({}, []) (snd u) of Inr st \<Rightarrow> snd st | Inl _ \<Rightarrow> [])"

definition emission :: "ucd \<Rightarrow> node \<Rightarrow> ip_record list" where
  "emission U soup = concat (map (discovered U) (units U soup))"

text \<open>The shape of an address: four groups of one to three decimal digits between dots.\<close>

definition octet_str :: "ucd \<Rightarrow> ustr \<Rightarrow> bool" where
  "octet_str U d = (d \<noteq> [] \<and> length d \<le> 3 \<and> list_all (is_digit U) d)"

definition dotted_quad :: "ucd \<Rightarrow> ustr \<Rightarrow> bool" where
  "dotted_quad U s =
     (case split_on 46 s of
        [a, b, c, d] \<Rightarrow> octet_str U a \<and> octet_str U b \<and> octet_str U c \<and> octet_str U d
      | _ \<Rightarrow> False)"

definition octets_in_range :: "ucd \<Rightarrow> ustr \<Rightarrow> bool" where
  "octets_in_range U s =
     list_all (\<lambda>x. case py_int U x of Inr n \<Rightarrow> n \<le> 255 | Inl _ \<Rightarrow> False) (split_on 46 s)"

text \<open>What the proofs need to know of the character database: the full stop is no digit.\<close>

definition wf_ucd :: "ucd \<Rightarrow> bool" where
  "wf_ucd U = (uc_decimal U 46 = None)"

text \<open>
  The first record of each address in a list, leaving out the addresses of \<open>S\<close>: what adding
  the records one by one appends to the results when \<open>S\<close> has been seen.
\<close>

fun firsts :: "ustr set \<Rightarrow> ip_record list \<Rightarrow> ip_record list" where
  "firsts S [] = []"
| "firsts S (c # cs) =
     (if address c \<in> S then firsts S cs else c # firsts (insert (address c) S) cs)"

definition valid_record :: "ucd \<Rightarrow> ip_record \<Rightarrow> bool" where
  "valid_record U r = (dotted_quad U (address r) \<and> octets_in_range U (address r))"

section \<open>Example documents\<close>

definition td :: "ustr \<Rightarrow> node" where
  "td s = Elem ''td'' [Text s]"

definition th :: "ustr \<Rightarrow> node" where
  "th s = Elem ''th'' [Text s]"

definition document :: "node list \<Rightarrow> node" where
  "document cs = Elem ''[document]'' cs"

definition row :: "node list \<Rightarrow> node" where
  "row cells = Elem ''tr'' cells"

definition header3 :: node where  \<comment> \<open>a header row that resolves the three roles to 0, 1, 2\<close>
  "header3 = row [th (asc ''IP''), th kw_line, th kw_speed]"

definition telecom_row :: "string \<Rightarrow> string \<Rightarrow> node" where
  "telecom_row ip speed = row [td (asc ip), td telecom, td (asc speed)]"



definition fallback_doc :: node where
  "fallback_doc = document [Elem ''table''
     [row [td telecom, td (asc ''300.1.1.1 and 1.2.3.4''), td (asc ''850 KB/s'')]]]"

definition other_row :: node where
  "other_row = row [td (asc ''5.6.7.8''), td [32852, 36890], td (asc ''20 MB/s'')]"

section \<open>Auxiliary lemmas\<close>

text \<open>The defining equations, to run the functions on the examples.\<close>

lemmas text_defs = asc_def basic_ucd_def basic_tolower_def is_digit_def is_word_def
  telecom_def kw_address_def kw_line_def kw_operator_def kw_speed_def unknown_def strip_def

lemmas pattern_defs = digits1_def frac_opt_def ci_char_def unit_tokens_def unit_here_def
  number_here_def spaced_unit_here_def speed_here_def word_opt_def head_opt_def boundary_def
  octet_dot_def ip_here_def ip_search_def ip_findall_def

lemmas run_defs = bind_def py_index_def py_int_def py_float_def parse_speed_to_mbps_def
  named_def find_all_def find_first_def strings_def get_text_def address_def mbps_def
  display_def or_none_def header_cells_of_def is_ip_header_def is_provider_header_def
  is_speed_header_def header_step_def classify_headers_def body_rows_of_def add_record_def
  too_narrow_def column_row_def fallback_match_def fallback_row_def mode_of_def row_step_def
  table_step_def sort_reverse_def collect_def extract_telecom_ips_def units_def discovered_def
  emission_def td_def th_def document_def row_def header3_def telecom_row_def Let_def

lemma wf_basic_ucd: "wf_ucd basic_ucd"
  by (simp add: wf_ucd_def basic_ucd_def)

subsection \<open>Exceptions and loops\<close>

lemma bind_Inr_iff: "bind r f = Inr y \<longleftrightarrow> (\<exists>x. r = Inr x \<and> f x = Inr y)"
  by (cases r) (auto simp: bind_def)

lemma bind_Inr [simp]: "bind (Inr x) f = f x"
  by (simp add: bind_def)

lemma bind_Inl [simp]: "bind (Inl e) f = Inl e"
  by (simp add: bind_def)

lemma for_each_append:
  "for_each f st (xs @ ys) = bind (for_each f st xs) (\<lambda>st'. for_each f st' ys)"
  by (induction xs arbitrary: st) (auto simp: bind_def split: sum.splits)

lemma for_each_concat:
  "for_each f st (concat xss) = for_each (\<lambda>s xs. for_each f s xs) st xss"
  by (induction xss arbitrary: st) (auto simp: for_each_append bind_def split: sum.splits)

lemma for_each_map:
  "for_each f st (map g xs) = for_each (\<lambda>s x. f s (g x)) st xs"
  by (induction xs arbitrary: st) (auto simp: bind_def split: sum.splits)

lemma for_each_total:
  assumes "\<And>s x. x \<in> set xs \<Longrightarrow> \<exists>s'. f s x = Inr s'"
  shows "\<exists>s'. for_each f st xs = Inr s'"
  using assms
proof (induction xs arbitrary: st)
  case Nil
  then show ?case by simp
next
  case (Cons x xs)
  from Cons.prems[of x st] obtain s1 where s1: "f st x = Inr s1" by auto
  from Cons.IH[of s1] Cons.prems obtain s2 where "for_each f s1 xs = Inr s2" by auto
  with s1 show ?case by simp
qed

lemma for_each_invariant:
  assumes "for_each f st xs = Inr st'" and "P st"
    and "\<And>s x s'. x \<in> set xs \<Longrightarrow> P s \<Longrightarrow> f s x = Inr s' \<Longrightarrow> P s'"
  shows "P st'"
  using assms
proof (induction xs arbitrary: st)
  case Nil
  then show ?case by simp
next
  case (Cons x xs)
  from Cons.prems(1) obtain s1 where s1: "f st x = Inr s1" and r: "for_each f s1 xs = Inr st'"
    by (auto simp: bind_Inr_iff)
  have "P s1" using Cons.prems(3)[of x st s1] Cons.prems(2) s1 by simp
  then show ?case using Cons.IH[OF r] Cons.prems(3) by auto
qed

subsection \<open>What the patterns match\<close>

lemma digits_upto_sound:
  "(d, r) \<in> set (digits_upto U n s) \<Longrightarrow>
     s = d @ r \<and> d \<noteq> [] \<and> length d \<le> n \<and> list_all (is_digit U) d"
proof (induction U n s arbitrary: d r rule: digits_upto.induct)
  case (1 U n)
  then show ?case by simp
next
  case (2 U n c cs)
  then show ?case by (fastforce split: if_splits)
qed

lemma digits1_sound:
  "(d, r) \<in> set (digits1 U s) \<Longrightarrow> s = d @ r \<and> d \<noteq> [] \<and> list_all (is_digit U) d"
  unfolding digits1_def using digits_upto_sound by blast

lemma frac_opt_sound:
  "(f, r) \<in> set (frac_opt U s) \<Longrightarrow>
     s = f @ r \<and> (f = [] \<or> (\<exists>d. f = 46 # d \<and> d \<noteq> [] \<and> list_all (is_digit U) d))"
  by (auto simp: frac_opt_def split: list.splits if_splits dest: digits1_sound)

lemma octet_dot_sound:
  "(a, r) \<in> set (octet_dot U s) \<Longrightarrow> \<exists>d. a = d @ [46] \<and> s = a @ r \<and> octet_str U d"
  by (auto simp: octet_dot_def octet_str_def split: list.splits if_splits dest!: digits_upto_sound)

lemma digit_not_dot: "wf_ucd U \<Longrightarrow> list_all (is_digit U) d \<Longrightarrow> 46 \<notin> set d"
  by (auto simp: wf_ucd_def is_digit_def list_all_iff)

lemma split_on_nodot: "d \<notin> set a \<Longrightarrow> split_on d a = [a]"
  by (induction a) auto

lemma split_on_dot: "d \<notin> set a \<Longrightarrow> split_on d (a @ d # b) = a # split_on d b"
  by (induction a) auto

lemma dotted_quadI:
  assumes "wf_ucd U" "octet_str U a" "octet_str U b" "octet_str U c" "octet_str U d"
  shows "split_on 46 (a @ [46] @ b @ [46] @ c @ [46] @ d) = [a, b, c, d]"
proof -
  have n: "46 \<notin> set a" "46 \<notin> set b" "46 \<notin> set c" "46 \<notin> set d"
    using assms by (auto simp: octet_str_def dest: digit_not_dot)
  show ?thesis using n by (simp add: split_on_dot split_on_nodot)
qed

lemma ip_here_sound:
  assumes "(m, r) \<in> set (ip_here U prev s)"
  shows "\<exists>a b c d. m = a @ [46] @ b @ [46] @ c @ [46] @ d \<and> s = m @ r \<and>
           octet_str U a \<and> octet_str U b \<and> octet_str U c \<and> octet_str U d \<and>
           boundary U prev s \<and> boundary U (Some (last d)) r"
proof -
  from assms have b0: "boundary U prev s"
    by (auto simp: ip_here_def split: if_splits)
  from assms b0 obtain a r1 b r2 c r3 d where
    h: "(a, r1) \<in> set (octet_dot U s)" "(b, r2) \<in> set (octet_dot U r1)"
       "(c, r3) \<in> set (octet_dot U r2)" "(d, r) \<in> set (digits_upto U 3 r3)"
       "boundary U (Some (last d)) r" "m = a @ b @ c @ d"
    by (auto simp: ip_here_def split: if_splits)
  from octet_dot_sound[OF h(1)] obtain a' where a: "a = a' @ [46]" "s = a @ r1" "octet_str U a'" by blast
  from octet_dot_sound[OF h(2)] obtain b' where b: "b = b' @ [46]" "r1 = b @ r2" "octet_str U b'" by blast
  from octet_dot_sound[OF h(3)] obtain c' where c: "c = c' @ [46]" "r2 = c @ r3" "octet_str U c'" by blast
  from digits_upto_sound[OF h(4)] have d: "r3 = d @ r" "octet_str U d"
    by (auto simp: octet_str_def)
  show ?thesis
    using a b c d h(5,6) b0 by (intro exI[of _ a'] exI[of _ b'] exI[of _ c'] exI[of _ d]) simp
qed

lemma ip_search_from_sound:
  "ip_search_from U prev s = Some m \<Longrightarrow>
     \<exists>pre post p. s = pre @ m @ post \<and> (m, post) \<in> set (ip_here U p (m @ post)) \<and>
        p = (if pre = [] then prev else Some (last pre))"
proof (induction U prev s rule: ip_search_from.induct)
  case (1 U prev)
  then show ?case by simp
next
  case (2 U prev c cs)
  show ?case
  proof (cases "ip_here U prev (c # cs)")
    case Nil
    with 2 obtain pre post p where
      "cs = pre @ m @ post" "(m, post) \<in> set (ip_here U p (m @ post))"
      "p = (if pre = [] then Some c else Some (last pre))"
      by auto
    then show ?thesis
      by (intro exI[of _ "c # pre"] exI[of _ post] exI[of _ p]) auto
  next
    case (Cons x xs)
    obtain m' r where x: "x = (m', r)" by (cases x)
    with Cons 2 have mm: "m' = m" by simp
    have "(m, r) \<in> set (ip_here U prev (c # cs))" using Cons x mm by simp
    moreover from ip_here_sound[OF this] have "c # cs = m @ r" by blast
    ultimately show ?thesis
      by (intro exI[of _ "[]"] exI[of _ r] exI[of _ prev]) auto
  qed
qed

lemma ip_scan_sound:
  "m \<in> set (ip_scan U prev skip s) \<Longrightarrow>
     \<exists>pre post p. s = pre @ m @ post \<and> (m, post) \<in> set (ip_here U p (m @ post)) \<and>
        p = (if pre = [] then prev else Some (last pre))"
proof (induction U prev skip s rule: ip_scan.induct)
  case (1 U prev skip)
  then show ?case by simp
next
  case (2 U prev skip c cs)
  have step: "\<exists>pre post p. c # cs = pre @ m @ post \<and> (m, post) \<in> set (ip_here U p (m @ post)) \<and>
        p = (if pre = [] then prev else Some (last pre))"
    if "\<exists>pre post p. cs = pre @ m @ post \<and> (m, post) \<in> set (ip_here U p (m @ post)) \<and>
        p = (if pre = [] then Some c else Some (last pre))"
  proof -
    from that obtain pre post p where
      "cs = pre @ m @ post" "(m, post) \<in> set (ip_here U p (m @ post))"
      "p = (if pre = [] then Some c else Some (last pre))" by blast
    then show ?thesis
      by (intro exI[of _ "c # pre"] exI[of _ post] exI[of _ p]) auto
  qed
  show ?case
  proof (cases "0 < skip")
    case True
    with 2 show ?thesis by (intro step) auto
  next
    case False
    show ?thesis
    proof (cases "ip_here U prev (c # cs)")
      case Nil
      with 2 False show ?thesis by (intro step) auto
    next
      case (Cons x xs)
      obtain m' r where x: "x = (m', r)" by (cases x)
      from 2(4) False Cons x have "m = m' \<or> m \<in> set (ip_scan U (Some c) (length m' - 1) cs)"
        by auto
      then show ?thesis
      proof
        assume mm: "m = m'"
        have "(m, r) \<in> set (ip_here U prev (c # cs))" using Cons x mm by simp
        moreover from ip_here_sound[OF this] have "c # cs = m @ r" by blast
        ultimately show ?thesis
          by (intro exI[of _ "[]"] exI[of _ r] exI[of _ prev]) auto
      next
        assume "m \<in> set (ip_scan U (Some c) (length m' - 1) cs)"
        with 2(3)[OF False Cons x[symmetric]] show ?thesis by (intro step) auto
      qed
    qed
  qed
qed

subsection \<open>\<open>int\<close> and \<open>float\<close> on what the patterns capture\<close>

lemma digits_value_total:
  "list_all (is_digit U) d \<Longrightarrow> \<exists>n. digits_value U acc d = Some n"
  by (induction d arbitrary: acc) (auto simp: is_digit_def)

lemma py_int_digits:
  "d \<noteq> [] \<Longrightarrow> list_all (is_digit U) d \<Longrightarrow> \<exists>n. py_int U d = Inr n"
  using digits_value_total[of U d 0] by (auto simp: py_int_def)

lemma py_int_octet: "octet_str U d \<Longrightarrow> \<exists>n. py_int U d = Inr n"
  by (auto simp: octet_str_def intro: py_int_digits)

lemma all_octets_total:
  "list_all (octet_str U) xs \<Longrightarrow> \<exists>b. all_octets_in_range U xs = Inr b"
proof (induction xs)
  case Nil
  show ?case by (rule exI[of _ True]) simp
next
  case (Cons x xs)
  then obtain n where n: "py_int U x = Inr n" using py_int_octet by fastforce
  from Cons obtain b where b: "all_octets_in_range U xs = Inr b" by auto
  show ?case
  proof (cases "n \<le> 255")
    case True
    then show ?thesis using n b by simp
  next
    case False
    then show ?thesis using n by (intro exI[of _ False]) simp
  qed
qed

lemma all_octets_True_iff:
  "all_octets_in_range U xs = Inr True \<longleftrightarrow>
     list_all (\<lambda>x. case py_int U x of Inr n \<Rightarrow> n \<le> 255 | Inl _ \<Rightarrow> False) xs"
  by (induction xs) (auto simp: bind_def split: sum.splits)

lemma number_here_sound:
  assumes "(g1, r) \<in> set (number_here U s)"
  shows "\<exists>d f. g1 = d @ f \<and> s = g1 @ r \<and> d \<noteq> [] \<and> list_all (is_digit U) d \<and>
           (f = [] \<or> (\<exists>e. f = 46 # e \<and> e \<noteq> [] \<and> list_all (is_digit U) e))"
proof -
  from assms obtain d r1 f where
    h: "(d, r1) \<in> set (digits1 U s)" "(f, r) \<in> set (frac_opt U r1)" "g1 = d @ f"
    by (auto simp: number_here_def)
  from digits1_sound[OF h(1)] frac_opt_sound[OF h(2)] h(3) show ?thesis
    by (intro exI[of _ d] exI[of _ f]) auto
qed

lemma speed_here_sound:
  assumes "(g1, g2) \<in> set (speed_here U s)"
  shows "\<exists>r. (g1, r) \<in> set (number_here U s) \<and> g2 \<in> set (spaced_unit_here U r)"
  using assms by (auto simp: speed_here_def)

lemma speed_search_sound:
  "speed_search U s = Some m \<Longrightarrow> \<exists>t. m \<in> set (speed_here U t)"
proof (induction U s rule: speed_search.induct)
  case (1 U)
  then show ?case by simp
next
  case (2 U c cs)
  show ?case
  proof (cases "speed_here U (c # cs)")
    case Nil
    with 2 show ?thesis by simp
  next
    case (Cons x xs)
    with 2 have "m \<in> set (speed_here U (c # cs))" by simp
    then show ?thesis by (rule exI)
  qed
qed

lemma py_float_captured:
  assumes "wf_ucd U" "d \<noteq> []" "list_all (is_digit U) d"
    and "f = [] \<or> (\<exists>e. f = 46 # e \<and> e \<noteq> [] \<and> list_all (is_digit U) e)"
  shows "\<exists>v. py_float U (d @ f) = Inr v"
proof -
  obtain n where n: "py_int U d = Inr n" using py_int_digits assms by blast
  have nd: "46 \<notin> set d" using assms digit_not_dot by blast
  from assms(4) show ?thesis
  proof
    assume "f = []"
    then show ?thesis using n nd by (simp add: py_float_def split_on_nodot)
  next
    assume "\<exists>e. f = 46 # e \<and> e \<noteq> [] \<and> list_all (is_digit U) e"
    then obtain e where e: "f = 46 # e" "e \<noteq> []" "list_all (is_digit U) e" by blast
    then obtain k where k: "py_int U e = Inr k" using py_int_digits by blast
    have ne: "46 \<notin> set e" using e assms(1) digit_not_dot by blast
    show ?thesis using n k nd ne e by (simp add: py_float_def split_on_dot split_on_nodot)
  qed
qed

lemma parse_speed_total:
  assumes "wf_ucd U"
  shows "\<exists>p. parse_speed_to_mbps U t = Inr p"
proof (cases "speed_search U t")
  case None
  then show ?thesis by (simp add: parse_speed_to_mbps_def)
next
  case (Some m)
  obtain g1 g2 where m: "m = (g1, g2)" by (cases m)
  from speed_search_sound[OF Some] m obtain s where "(g1, g2) \<in> set (speed_here U s)" by blast
  from speed_here_sound[OF this] obtain r where "(g1, r) \<in> set (number_here U s)" by blast
  from number_here_sound[OF this] obtain d f where
    "g1 = d @ f" "d \<noteq> []" "list_all (is_digit U) d"
    "f = [] \<or> (\<exists>e. f = 46 # e \<and> e \<noteq> [] \<and> list_all (is_digit U) e)" by blast
  with py_float_captured[OF assms, of d f] obtain v where "py_float U g1 = Inr v" by blast
  then show ?thesis using Some m by (simp add: parse_speed_to_mbps_def Let_def)
qed

lemma ip_match_octets:
  assumes "wf_ucd U" "(m, r) \<in> set (ip_here U p s)"
  shows "dotted_quad U m" and "\<exists>b. all_octets_in_range U (split_on 46 m) = Inr b"
proof -
  from ip_here_sound[OF assms(2)] obtain a b c d where
    h: "m = a @ [46] @ b @ [46] @ c @ [46] @ d" "octet_str U a" "octet_str U b"
       "octet_str U c" "octet_str U d" by blast
  have sp: "split_on 46 m = [a, b, c, d]" using dotted_quadI[OF assms(1) h(2-5)] h(1) by simp
  show "dotted_quad U m" using sp h by (simp add: dotted_quad_def)
  show "\<exists>b. all_octets_in_range U (split_on 46 m) = Inr b"
    using sp h all_octets_total[of U "[a, b, c, d]"] by simp
qed

lemma ip_search_octets:
  assumes "wf_ucd U" "ip_search U s = Some m"
  shows "dotted_quad U m" and "\<exists>b. all_octets_in_range U (split_on 46 m) = Inr b"
proof -
  from ip_search_from_sound[of U None s m] assms(2)
  obtain post p where h: "(m, post) \<in> set (ip_here U p (m @ post))"
    unfolding ip_search_def by blast
  show "dotted_quad U m" by (rule ip_match_octets(1)[OF assms(1) h])
  show "\<exists>b. all_octets_in_range U (split_on 46 m) = Inr b"
    by (rule ip_match_octets(2)[OF assms(1) h])
qed

lemma ip_findall_octets:
  assumes "wf_ucd U" "m \<in> set (ip_findall U s)"
  shows "dotted_quad U m" and "\<exists>b. all_octets_in_range U (split_on 46 m) = Inr b"
proof -
  from ip_scan_sound[of m U None 0 s] assms(2)
  obtain post p where h: "(m, post) \<in> set (ip_here U p (m @ post))"
    unfolding ip_findall_def by blast
  show "dotted_quad U m" by (rule ip_match_octets(1)[OF assms(1) h])
  show "\<exists>b. all_octets_in_range U (split_on 46 m) = Inr b"
    by (rule ip_match_octets(2)[OF assms(1) h])
qed

subsection \<open>Adding records\<close>

lemma foldl_add_record:
  "foldl add_record (seen, results) cs = (seen \<union> address ` set cs, results @ firsts seen cs)"
  by (induction cs arbitrary: seen results) (auto simp: add_record_def)

lemma firsts_filter:
  "firsts (A \<union> B) cs = filter (\<lambda>r. address r \<notin> A) (firsts B cs)"
proof (induction cs arbitrary: B)
  case Nil
  then show ?case by simp
next
  case (Cons c cs)
  show ?case
  proof (cases "address c \<in> A")
    case True
    then have "A \<union> insert (address c) B = A \<union> B" by auto
    with Cons[of "insert (address c) B"] Cons[of B] True show ?thesis by simp
  next
    case False
    with Cons[of "insert (address c) B"] Cons[of B] show ?thesis by simp
  qed
qed

lemma firsts_addresses: "address ` set (firsts S cs) = address ` set cs - S"
  by (induction cs arbitrary: S) auto

lemma firsts_subset: "set (firsts S cs) \<subseteq> set cs"
  by (induction cs arbitrary: S) auto

lemma firsts_distinct: "distinct (map address (firsts S cs))"
proof (induction cs arbitrary: S)
  case Nil
  then show ?case by simp
next
  case (Cons c cs)
  have "address c \<notin> address ` set (firsts (insert (address c) S) cs)"
    by (simp add: firsts_addresses)
  with Cons show ?case by auto
qed

lemma firsts_of_distinct:
  "distinct (map address cs) \<Longrightarrow> firsts S cs = filter (\<lambda>r. address r \<notin> S) cs"
proof (induction cs arbitrary: S)
  case Nil
  then show ?case by simp
next
  case (Cons c cs)
  from Cons.prems have nc: "\<And>x. x \<in> set cs \<Longrightarrow> address x \<noteq> address c"
    by (auto simp: image_iff)
  have "filter (\<lambda>r. address r \<notin> insert (address c) S) cs = filter (\<lambda>r. address r \<notin> S) cs"
    by (rule filter_cong) (auto dest: nc)
  with Cons show ?case by simp
qed

lemma firsts_idem: "firsts S (firsts {} cs) = firsts S cs"
  using firsts_of_distinct[OF firsts_distinct, of S "{}" cs] firsts_filter[of S "{}" cs]
  by simp

lemma foldl_add_record_firsts:
  "foldl add_record st (firsts {} cs) = foldl add_record st cs"
  by (cases st) (simp add: foldl_add_record firsts_idem firsts_addresses)


subsection \<open>Rows\<close>

lemma octets_in_range_iff:
  "octets_in_range U s \<longleftrightarrow> all_octets_in_range U (split_on 46 s) = Inr True"
  by (simp add: octets_in_range_def all_octets_True_iff)

lemma column_row_candidates:
  assumes "wf_ucd U"
  shows "\<exists>cs. (\<forall>st. column_row U i p s st tr = Inr (foldl add_record st cs)) \<and>
              (\<forall>r\<in>set cs. valid_record U r)"
proof -
  let ?tds = "find_all [''td'', ''th''] tr"
  have skip: ?thesis if "\<forall>st. column_row U i p s st tr = Inr st"
    using that by (intro exI[of _ "[]"]) simp
  show ?thesis
  proof (cases "too_narrow ?tds i p s")
    case True
    then show ?thesis by (intro skip) (simp add: column_row_def)
  next
    case narrow: False
    then have idx: "py_index ?tds p = Inr (?tds ! p)" "py_index ?tds i = Inr (?tds ! i)"
      "py_index ?tds s = Inr (?tds ! s)"
      by (auto simp: too_narrow_def py_index_def)
    show ?thesis
    proof (cases "contains telecom (get_text U [] (?tds ! p))")
      case False
      then show ?thesis using narrow idx by (intro skip) (simp add: column_row_def)
    next
      case prov: True
      show ?thesis
      proof (cases "ip_search U (get_text U [32] (?tds ! i))")
        case None
        then show ?thesis using narrow idx prov by (intro skip) (simp add: column_row_def)
      next
        case (Some ip)
        from ip_search_octets[OF assms Some] obtain b where
          dq: "dotted_quad U ip" and b: "all_octets_in_range U (split_on 46 ip) = Inr b" by blast
        show ?thesis
        proof (cases b)
          case False
          then show ?thesis using narrow idx prov Some b
            by (intro skip) (simp add: column_row_def)
        next
          case True
          obtain parsed where ps: "parse_speed_to_mbps U (get_text U [32] (?tds ! s)) = Inr parsed"
            using parse_speed_total[OF assms] by blast
          let ?st = "get_text U [32] (?tds ! s)"
          let ?r = "case parsed of Some (mbps_value, display_speed) \<Rightarrow> (ip, mbps_value, display_speed)
                     | None \<Rightarrow> (ip, 0, if ?st \<noteq> [] then ?st else unknown)"
          have a: "address ?r = ip" by (auto simp: address_def split: option.splits)
          have "\<forall>st. column_row U i p s st tr = Inr (foldl add_record st [?r])"
            using narrow idx prov Some b True ps by (simp add: column_row_def Let_def)
          moreover have "valid_record U ?r"
            using a dq b True by (simp add: valid_record_def octets_in_range_iff)
          ultimately show ?thesis by (intro exI[of _ "[?r]"]) simp
        qed
      qed
    qed
  qed
qed

lemma fallback_matches:
  assumes "\<forall>m\<in>set ms. \<exists>b. all_octets_in_range U (split_on 46 m) = Inr b"
  shows "for_each (fallback_match U v d) st ms =
           Inr (foldl add_record st (map (\<lambda>m. (m, v, d)) (filter (octets_in_range U) ms)))"
  using assms
proof (induction ms arbitrary: st)
  case Nil
  then show ?case by simp
next
  case (Cons m ms)
  then obtain b where b: "all_octets_in_range U (split_on 46 m) = Inr b" by auto
  have "octets_in_range U m = b" using b by (simp add: octets_in_range_iff)
  then show ?case using Cons b by (simp add: fallback_match_def)
qed

lemma fallback_row_candidates:
  assumes "wf_ucd U"
  shows "\<exists>cs. (\<forall>st. fallback_row U st tr = Inr (foldl add_record st cs)) \<and>
              (\<forall>r\<in>set cs. valid_record U r)"
proof -
  let ?cells = "find_all [''td'', ''th''] tr"
  let ?row_text = "join [32] (map (get_text U []) ?cells)"
  have skip: ?thesis if "\<forall>st. fallback_row U st tr = Inr st"
    using that by (intro exI[of _ "[]"]) simp
  show ?thesis
  proof (cases "?cells = [] \<or> \<not> contains telecom ?row_text")
    case True
    then show ?thesis by (intro skip) (auto simp: fallback_row_def Let_def)
  next
    case False
    obtain parsed where ps: "parse_speed_to_mbps U ?row_text = Inr parsed"
      using parse_speed_total[OF assms] by blast
    obtain v d where vd: "(case parsed of Some p \<Rightarrow> p | None \<Rightarrow> (0, unknown)) = (v, d)"
      by (cases "case parsed of Some p \<Rightarrow> p | None \<Rightarrow> (0, unknown)") auto
    let ?cs = "map (\<lambda>m. (m, v, d)) (filter (octets_in_range U) (ip_findall U ?row_text))"
    have tot: "\<forall>m\<in>set (ip_findall U ?row_text). \<exists>b. all_octets_in_range U (split_on 46 m) = Inr b"
      using ip_findall_octets(2)[OF assms] by blast
    have "\<forall>st. fallback_row U st tr = Inr (foldl add_record st ?cs)"
      using False ps vd fallback_matches[OF tot] by (simp add: fallback_row_def Let_def)
    moreover have "\<forall>r\<in>set ?cs. valid_record U r"
      using ip_findall_octets(1)[OF assms] by (auto simp: valid_record_def address_def)
    ultimately show ?thesis by blast
  qed
qed

lemma row_step_candidates:
  assumes "wf_ucd U"
  shows "\<exists>cs. (\<forall>st. row_step U md st tr = Inr (foldl add_record st cs)) \<and>
              (\<forall>r\<in>set cs. valid_record U r)"
  using column_row_candidates[OF assms] fallback_row_candidates[OF assms]
  by (cases md) (simp_all add: row_step_def)

lemma row_step_discovered:
  assumes "wf_ucd U"
  shows "row_step U md st tr = Inr (foldl add_record st (discovered U (md, tr)))"
    and "\<forall>r\<in>set (discovered U (md, tr)). valid_record U r"
proof -
  from row_step_candidates[OF assms, of md tr] obtain cs where
    cs: "\<And>st. row_step U md st tr = Inr (foldl add_record st cs)" "\<forall>r\<in>set cs. valid_record U r"
    by blast
  have d: "discovered U (md, tr) = firsts {} cs"
    by (simp add: discovered_def cs(1) foldl_add_record)
  show "row_step U md st tr = Inr (foldl add_record st (discovered U (md, tr)))"
    by (simp add: d cs(1) foldl_add_record_firsts)
  show "\<forall>r\<in>set (discovered U (md, tr)). valid_record U r"
    using cs(2) firsts_subset[of "{}" cs] by (auto simp: d)
qed

subsection \<open>The whole run\<close>

lemma for_each_rows:
  assumes "wf_ucd U"
  shows "for_each (row_step U md) st rows =
           Inr (foldl add_record st (concat (map (\<lambda>tr. discovered U (md, tr)) rows)))"
  by (induction rows arbitrary: st) (simp_all add: row_step_discovered(1)[OF assms])

lemma table_step_units:
  assumes "wf_ucd U"
  shows "table_step U st table =
           Inr (foldl add_record st (concat (map (discovered U)
             (let header_cells = header_cells_of table
              in map (\<lambda>tr. (mode_of (classify_headers U header_cells), tr))
                   (body_rows_of table header_cells)))))"
  by (simp add: table_step_def Let_def for_each_rows[OF assms] comp_def)

lemma for_each_tables:
  assumes "wf_ucd U"
  shows "for_each (table_step U) st tables =
           Inr (foldl add_record st (concat (map (discovered U)
             (concat (map (\<lambda>table.
                let header_cells = header_cells_of table
                in map (\<lambda>tr. (mode_of (classify_headers U header_cells), tr))
                     (body_rows_of table header_cells)) tables)))))"
  by (induction tables arbitrary: st) (simp_all add: table_step_units[OF assms])

lemma collect_emission:
  assumes "wf_ucd U"
  shows "collect U soup = Inr (foldl add_record ({}, []) (emission U soup))"
  by (simp add: collect_def emission_def units_def for_each_tables[OF assms])

lemma collect_results:
  assumes "wf_ucd U"
  shows "collect U soup = Inr (address ` set (emission U soup), firsts {} (emission U soup))"
  by (simp add: collect_emission[OF assms] foldl_add_record)

lemma emission_valid:
  assumes "wf_ucd U"
  shows "\<forall>r\<in>set (emission U soup). valid_record U r"
  using row_step_discovered(2)[OF assms] by (auto simp: emission_def)

lemma sort_reverse_set: "set (sort_reverse key xs) = set xs"
  by (simp add: sort_reverse_def)





lemma extract_results:
  assumes "wf_ucd U"
  shows "extract_telecom_ips U soup = Inr (sort_reverse mbps (firsts {} (emission U soup)))"
  by (simp add: extract_telecom_ips_def collect_results[OF assms])


section \<open>The claims\<close>





text \<open>
  C5. For every document the extraction returns (no exception leaves it), and the address of
  every record is four groups of one to three decimal digits between dots, each of which
  \<open>int\<close> reads as a number of at most 255. A match with a greater group is passed over.
\<close>

theorem addresses_valid_and_total:
  assumes "wf_ucd U"
  shows "\<exists>rs. extract_telecom_ips U soup = Inr rs \<and>
           (\<forall>r\<in>set rs. dotted_quad U (address r) \<and> octets_in_range U (address r))"
proof -
  let ?rs = "sort_reverse mbps (firsts {} (emission U soup))"
  have "extract_telecom_ips U soup = Inr ?rs" by (rule extract_results[OF assms])
  moreover have "set ?rs \<subseteq> set (emission U soup)"
    using firsts_subset by (simp add: sort_reverse_set)
  ultimately show ?thesis
    using emission_valid[OF assms, of soup] by (auto simp: valid_record_def)
qed

theorem addresses_valid_and_total_witness:
  "wf_ucd basic_ucd \<and>
   extract_telecom_ips basic_ucd fallback_doc = Inr [(asc ''1.2.3.4'', 34 / 5, asc ''850 KB/s'')] \<and>
   ip_findall basic_ucd (asc ''300.1.1.1 and 1.2.3.4'') = [asc ''300.1.1.1'', asc ''1.2.3.4''] \<and>
   dotted_quad basic_ucd (asc ''1.2.3.4'') \<and> octets_in_range basic_ucd (asc ''1.2.3.4'') \<and>
   \<not> octets_in_range basic_ucd (asc ''300.1.1.1'')"
proof -
  have e: "extract_telecom_ips basic_ucd fallback_doc =
             Inr [(asc ''1.2.3.4'', 34 / 5, asc ''850 KB/s'')]"
    by (simp add: text_defs pattern_defs run_defs fallback_doc_def)
  have f: "ip_findall basic_ucd (asc ''300.1.1.1 and 1.2.3.4'') = [asc ''300.1.1.1'', asc ''1.2.3.4'']"
    by (simp add: text_defs pattern_defs)
  have n: "\<not> octets_in_range basic_ucd (asc ''300.1.1.1'')"
    by (simp add: octets_in_range_def text_defs py_int_def)
  from addresses_valid_and_total[OF wf_basic_ucd, of fallback_doc] e
  have "dotted_quad basic_ucd (address (asc ''1.2.3.4'', 34 / 5, asc ''850 KB/s'')) \<and>
        octets_in_range basic_ucd (address (asc ''1.2.3.4'', 34 / 5, asc ''850 KB/s''))"
    by auto
  then have "dotted_quad basic_ucd (asc ''1.2.3.4'') \<and> octets_in_range basic_ucd (asc ''1.2.3.4'')"
    by (simp add: address_def)
  with wf_basic_ucd e f n show ?thesis by (intro conjI) simp_all
qed

end
